theory Spec2Isabelle
  imports Main "HOL-Library.AList"
begin

section \<open>JSON values\<close>

text \<open>
  Every message, tool argument and snapshot node of the relay is a value produced by
  \<^verbatim>\<open>JSON.parse\<close>. Numbers are modelled by integers (timestamps and limits are
  integer milliseconds and counts): a number with a fraction, or one beyond \<open>2\<^sup>5\<^sup>3\<close> where
  the doubles of the runtime round, has no counterpart here. An object is the list of its
  own properties in enumeration order.
\<close>

datatype json =
    JNull
  | JBool bool
  | JNum int
  | JStr string
  | JArr "json list"
  | JObj "(string \<times> json) list"

text \<open>JavaScript truthiness of a parsed JSON value (\<^verbatim>\<open>!message\<close>, \<^verbatim>\<open>a || b\<close>).\<close>

fun truthy :: "json \<Rightarrow> bool" where
  "truthy JNull = False"
| "truthy (JBool b) = b"
| "truthy (JNum n) = (n \<noteq> 0)"
| "truthy (JStr s) = (s \<noteq> [])"
| "truthy (JArr xs) = True"
| "truthy (JObj kvs) = True"

text \<open>
  Property read \<^verbatim>\<open>value.key\<close> for the property names the relay uses (none of them is
  \<^verbatim>\<open>length\<close> or an index): \<open>None\<close> is \<^verbatim>\<open>undefined\<close>, which is what a primitive or an
  array yields for these names.
\<close>

fun jprop :: "json \<Rightarrow> string \<Rightarrow> json option" where
  "jprop (JObj kvs) k = map_of kvs k"
| "jprop _ k = None"

text \<open>A \<^verbatim>\<open>string | null\<close> local tested with \<^verbatim>\<open>if (channel)\<close> or \<^verbatim>\<open>channel || other\<close>.\<close>

fun nonempty :: "string option \<Rightarrow> bool" where
  "nonempty None = False"
| "nonempty (Some c) = (c \<noteq> [])"

text \<open>
  A \<^verbatim>\<open>Set\<close> is the list of its elements in insertion order: \<^verbatim>\<open>set.add(x)\<close> and
  \<^verbatim>\<open>new Set(xs)\<close>.
\<close>

definition setAdd :: "'a \<Rightarrow> 'a list \<Rightarrow> 'a list" where
  "setAdd x xs = (if x \<in> set xs then xs else xs @ [x])"

definition newSet :: "'a list \<Rightarrow> 'a list" where
  "newSet xs = fold setAdd xs []"

text \<open>
  A plain object the relay creates with \<^verbatim>\<open>{}\<close> and fills by assignment: the list of
  its own properties in enumeration order, which is the array-index keys in ascending
  order first and then the other keys in the order of their creation. An array index is
  the canonical decimal form of an integer below \<open>2\<^sup>3\<^sup>2 - 1\<close>.
\<close>

definition indexValue :: "string \<Rightarrow> nat" where
  "indexValue k = foldl (\<lambda>n c. 10 * n + (of_char c - 48)) 0 k"

definition isArrayIndex :: "string \<Rightarrow> bool" where
  "isArrayIndex k \<longleftrightarrow>
     k \<noteq> [] \<and> list_all (\<lambda>c. c \<in> set ''0123456789'') k \<and> (k = ''0'' \<or> hd k \<noteq> CHR ''0'')
     \<and> indexValue k < 4294967295"

text \<open>\<^verbatim>\<open>object[k] = v\<close> for a key other than \<^verbatim>\<open>__proto__\<close>.\<close>

fun objSet :: "string \<Rightarrow> 'v \<Rightarrow> (string \<times> 'v) list \<Rightarrow> (string \<times> 'v) list" where
  "objSet k v [] = [(k, v)]"
| "objSet k v ((k', v') # rest) =
     (if k' = k then (k, v) # rest
      else if isArrayIndex k \<and> (\<not> isArrayIndex k' \<or> indexValue k < indexValue k')
      then (k, v) # (k', v') # rest
      else (k', v') # objSet k v rest)"

text \<open>
  The names a plain object inherits from \<^verbatim>\<open>Object.prototype\<close>, all of them functions;
  \<^verbatim>\<open>__proto__\<close>, also inherited, is an accessor and is treated where it is used.
\<close>

definition objectPrototypeMembers :: "string list" where
  "objectPrototypeMembers =
     [''constructor'', ''hasOwnProperty'', ''isPrototypeOf'', ''propertyIsEnumerable'',
      ''toLocaleString'', ''toString'', ''valueOf'', ''__defineGetter__'', ''__defineSetter__'',
      ''__lookupGetter__'', ''__lookupSetter__'']"

section \<open>Relay state\<close>

record event_entry =
  ev_id :: string
  ev_event :: string
  ev_payload :: "json option"
  ev_timestamp :: int
  ev_channel :: string

record queued_request =
  req_id :: string
  req_method :: string
  req_params :: json
  req_channel :: string

datatype ready_state = CONNECTING | OPEN | CLOSING | CLOSED

text \<open>A frame written with \<^verbatim>\<open>socket.send\<close>: the ready announcement or a request envelope.\<close>

datatype frame = Ready nat | Request queued_request

text \<open>
  How a caller's promise is settled: \<^verbatim>\<open>entry.resolve(message.result)\<close>,
  \<^verbatim>\<open>entry.reject(new Error(message.error.message || "Plugin error"))\<close> (carrying the value
  given to the constructor), the timer's \<^verbatim>\<open>reject(new Error(`Timeout after ...ms`))\<close>
  (carrying the configured duration) and the close handler's
  \<^verbatim>\<open>entry.reject(new Error("Plugin disconnected"))\<close>.
\<close>

datatype settlement =
    Resolved "json option"
  | PluginError json
  | TimeoutError int
  | Disconnected

text \<open>
  The module-level state of the server. A socket object is identified by its connection
  number. The promise created by one call of \<^verbatim>\<open>sendToPlugin\<close> is identified by a call
  number: the pending entry \<^verbatim>\<open>{resolve, reject, timer}\<close> of a call is that number,
  \<open>timers\<close> holds the armed \<^verbatim>\<open>setTimeout\<close> callbacks (each with the correlation id its
  closure captured), and \<open>settled\<close> logs every invocation of a \<^verbatim>\<open>resolve\<close> or
  \<^verbatim>\<open>reject\<close>. The \<^verbatim>\<open>Map\<close> and the \<^verbatim>\<open>Set\<close> are lists in insertion order.
\<close>

record relay =
  MAX_EVENTS :: int
  REQUEST_TIMEOUT_MS :: int
  activeSocket :: "nat option"
  socketId :: nat
  readyState :: "nat \<Rightarrow> ready_state"
  outbox :: "(nat \<times> frame) list"
  activeChannel :: string
  channels :: "string list"
  requestQueue :: "queued_request list"
  pending :: "(string \<times> nat) list"
  timers :: "(nat \<times> string) list"
  settled :: "(nat \<times> settlement) list"
  nextCall :: nat
  eventBuffer :: "event_entry list"

definition initial :: "int \<Rightarrow> int \<Rightarrow> relay" where
  "initial maxEvents timeoutMs =
     \<lparr> MAX_EVENTS = maxEvents, REQUEST_TIMEOUT_MS = timeoutMs,
       activeSocket = None, socketId = 0, readyState = (\<lambda>_. CLOSED), outbox = [],
       activeChannel = ''default'', channels = [''default''],
       requestQueue = [], pending = [], timers = [], settled = [], nextCall = 0,
       eventBuffer = [] \<rparr>"

section \<open>Event buffer\<close>

text \<open>\<^verbatim>\<open>array.splice(0, k)\<close>: the delete count is clamped to the array.\<close>

definition splice0 :: "int \<Rightarrow> 'a list \<Rightarrow> 'a list" where
  "splice0 k xs = drop (nat k) xs"

definition pushEvent :: "event_entry \<Rightarrow> 'a relay_scheme \<Rightarrow> 'a relay_scheme" where
  "pushEvent entry s =
     (let b = eventBuffer s @ [entry] in
      if int (length b) > MAX_EVENTS s
      then s\<lparr>eventBuffer := splice0 (int (length b) - MAX_EVENTS s) b\<rparr>
      else s\<lparr>eventBuffer := b\<rparr>)"

text \<open>
  \<^verbatim>\<open>handleEventMessage(message, channelOverride)\<close>; \<open>eid\<close> is the value of the id
  template and \<open>now\<close> of \<^verbatim>\<open>Date.now()\<close>.
\<close>

definition handleEventMessage ::
  "string \<Rightarrow> int \<Rightarrow> json \<Rightarrow> string option \<Rightarrow> 'a relay_scheme \<Rightarrow> 'a relay_scheme" where
  "handleEventMessage eid now message channelOverride s =
     (if \<not> truthy message then s
      else case jprop message ''event'' of
        Some (JStr e) \<Rightarrow>
          pushEvent
            \<lparr> ev_id = eid, ev_event = e, ev_payload = jprop message ''payload'',
              ev_timestamp = (case jprop message ''timestamp'' of Some (JNum t) \<Rightarrow> t | _ \<Rightarrow> now),
              ev_channel = (if nonempty channelOverride then the channelOverride
                            else activeChannel s) \<rparr> s
      | _ \<Rightarrow> s)"

section \<open>Correlation table and delivery\<close>

definition clearTimeout :: "nat \<Rightarrow> 'a relay_scheme \<Rightarrow> 'a relay_scheme" where
  "clearTimeout t s = s\<lparr>timers := AList.delete t (timers s)\<rparr>"

definition resolve :: "nat \<Rightarrow> json option \<Rightarrow> 'a relay_scheme \<Rightarrow> 'a relay_scheme" where
  "resolve entry v s = s\<lparr>settled := settled s @ [(entry, Resolved v)]\<rparr>"

definition reject :: "nat \<Rightarrow> settlement \<Rightarrow> 'a relay_scheme \<Rightarrow> 'a relay_scheme" where
  "reject entry err s = s\<lparr>settled := settled s @ [(entry, err)]\<rparr>"

text \<open>\<^verbatim>\<open>message.error.message || "Plugin error"\<close>, for a truthy \<^verbatim>\<open>message.error\<close>.\<close>

definition errorMessage :: "json \<Rightarrow> json" where
  "errorMessage err =
     (case jprop err ''message'' of
        Some m \<Rightarrow> if truthy m then m else JStr ''Plugin error''
      | None \<Rightarrow> JStr ''Plugin error'')"

definition handleResponseMessage :: "json \<Rightarrow> 'a relay_scheme \<Rightarrow> 'a relay_scheme" where
  "handleResponseMessage message s =
     (if \<not> truthy message then s
      else case jprop message ''id'' of
        Some (JStr i) \<Rightarrow>
          (case map_of (pending s) i of
             None \<Rightarrow> s
           | Some entry \<Rightarrow>
               let s1 = clearTimeout entry s;
                   s2 = s1\<lparr>pending := AList.delete i (pending s1)\<rparr>
               in (case jprop message ''error'' of
                     Some err \<Rightarrow>
                       if truthy err then reject entry (PluginError (errorMessage err)) s2
                       else resolve entry (jprop message ''result'') s2
                   | None \<Rightarrow> resolve entry (jprop message ''result'') s2))
      | _ \<Rightarrow> s)"

text \<open>
  The \<^verbatim>\<open>connection\<close> handler of the WebSocket server; the library hands over an open
  socket.
\<close>

definition onConnection :: "'a relay_scheme \<Rightarrow> 'a relay_scheme" where
  "onConnection s =
     (let i = Suc (socketId s)
      in s\<lparr>socketId := i, activeSocket := Some i, readyState := (readyState s)(i := OPEN),
            outbox := outbox s @ [(i, Ready i)]\<rparr>)"

text \<open>
  The \<^verbatim>\<open>message\<close> handler of a socket; \<open>parsed\<close> is \<open>None\<close> when \<^verbatim>\<open>JSON.parse\<close>
  throws (the handler swallows it).
\<close>

definition onMessage ::
  "string \<Rightarrow> int \<Rightarrow> json option \<Rightarrow> 'a relay_scheme \<Rightarrow> 'a relay_scheme" where
  "onMessage eid now parsed s =
     (case parsed of
        None \<Rightarrow> s
      | Some message \<Rightarrow>
          if \<not> truthy message then s
          else case jprop message ''type'' of
            Some (JStr t) \<Rightarrow>
              if t = ''response'' then handleResponseMessage message s
              else if t = ''event'' then handleEventMessage eid now message (Some (activeChannel s)) s
              else s
          | _ \<Rightarrow> s)"

text \<open>
  The loop of the \<^verbatim>\<open>close\<close> handler over \<^verbatim>\<open>pending.entries()\<close>: each entry visited
  has its timer cleared, is deleted from the table and is rejected.
\<close>

fun failPending :: "(string \<times> nat) list \<Rightarrow> 'a relay_scheme \<Rightarrow> 'a relay_scheme" where
  "failPending [] s = s"
| "failPending ((i, entry) # es) s =
     failPending es
       (reject entry Disconnected
          ((clearTimeout entry s)\<lparr>pending := AList.delete i (pending (clearTimeout entry s))\<rparr>))"

definition onClose :: "nat \<Rightarrow> 'a relay_scheme \<Rightarrow> 'a relay_scheme" where
  "onClose socket s =
     (let s1 = (if activeSocket s = Some socket then s\<lparr>activeSocket := None\<rparr> else s)
      in failPending (pending s1) s1)"

text \<open>\<^verbatim>\<open>GET /pull\<close>: the oldest queued envelope (status 200), or nothing (status 204).\<close>

definition httpPull :: "'a relay_scheme \<Rightarrow> queued_request option \<times> 'a relay_scheme" where
  "httpPull s =
     (case requestQueue s of
        [] \<Rightarrow> (None, s)
      | next # rest \<Rightarrow> (Some next, s\<lparr>requestQueue := rest\<rparr>))"


text \<open>
  \<^verbatim>\<open>POST /push\<close> and \<^verbatim>\<open>POST /event\<close>: \<open>parsed\<close> is the parsed body (\<^verbatim>\<open>{}\<close> for an
  empty one), \<open>None\<close> when \<^verbatim>\<open>JSON.parse\<close> throws; the result is the status code.
\<close>

definition httpPush :: "json option \<Rightarrow> 'a relay_scheme \<Rightarrow> nat \<times> 'a relay_scheme" where
  "httpPush parsed s =
     (case parsed of None \<Rightarrow> (400, s) | Some message \<Rightarrow> (200, handleResponseMessage message s))"

definition httpEvent ::
  "string \<Rightarrow> int \<Rightarrow> json option \<Rightarrow> 'a relay_scheme \<Rightarrow> nat \<times> 'a relay_scheme" where
  "httpEvent eid now parsed s =
     (case parsed of
        None \<Rightarrow> (400, s)
      | Some message \<Rightarrow> (200, handleEventMessage eid now message (Some (activeChannel s)) s))"

text \<open>
  The synchronous part of \<^verbatim>\<open>sendToPlugin(method, params)\<close>, up to the return of the
  promise; \<open>i\<close> is the generated correlation id. The result is the call number of the
  promise.
\<close>

definition sendToPlugin ::
  "string \<Rightarrow> string \<Rightarrow> json \<Rightarrow> 'a relay_scheme \<Rightarrow> nat \<times> 'a relay_scheme" where
  "sendToPlugin i method params s =
     (let payload = \<lparr> req_id = i, req_method = method, req_params = params,
                       req_channel = activeChannel s \<rparr>;
          call = nextCall s;
          s1 = s\<lparr>nextCall := Suc call, timers := timers s @ [(call, i)]\<rparr>;
          s2 = s1\<lparr>pending := AList.update i call (pending s1)\<rparr>
      in (call,
          case activeSocket s2 of
            Some socket \<Rightarrow>
              if readyState s2 socket = OPEN
              then s2\<lparr>outbox := outbox s2 @ [(socket, Request payload)]\<rparr>
              else s2\<lparr>requestQueue := requestQueue s2 @ [payload]\<rparr>
          | None \<Rightarrow> s2\<lparr>requestQueue := requestQueue s2 @ [payload]\<rparr>))"

text \<open>
  The callback given to \<^verbatim>\<open>setTimeout\<close> by call \<open>call\<close> runs, if that timer is still
  armed: it deletes the table entry under the captured id and rejects the caller.
\<close>

definition timerFires :: "nat \<Rightarrow> 'a relay_scheme \<Rightarrow> 'a relay_scheme" where
  "timerFires call s =
     (case map_of (timers s) call of
        None \<Rightarrow> s
      | Some i \<Rightarrow>
          reject call (TimeoutError (REQUEST_TIMEOUT_MS s))
            (s\<lparr>timers := AList.delete call (timers s), pending := AList.delete i (pending s)\<rparr>))"

text \<open>Every timer that is armed expires.\<close>

definition fireAll :: "'a relay_scheme \<Rightarrow> 'a relay_scheme" where
  "fireAll s = fold timerFires (map fst (timers s)) s"

text \<open>The settlements a call's promise has received so far.\<close>

definition settlements :: "nat \<Rightarrow> 'a relay_scheme \<Rightarrow> settlement list" where
  "settlements call s = map snd (filter (\<lambda>e. fst e = call) (settled s))"

section \<open>Local tools\<close>

record events_result =
  er_channel :: string
  er_total :: nat
  er_returned :: nat
  er_events :: "event_entry list"

text \<open>
  \<^verbatim>\<open>getEvents(params)\<close>. When no filter applies and the limit does not cut, \<^verbatim>\<open>events\<close>
  is the buffer array itself, so that \<^verbatim>\<open>eventBuffer.length = 0\<close> also empties the
  \<^verbatim>\<open>events\<close> of the result already built.
\<close>

definition getEvents :: "json \<Rightarrow> 'a relay_scheme \<Rightarrow> events_result \<times> 'a relay_scheme" where
  "getEvents params s =
     (let buf = eventBuffer s;
          limit = (case jprop params ''limit'' of
                     Some (JNum n) \<Rightarrow> if n > 0 then n else int (length buf)
                   | _ \<Rightarrow> int (length buf));
          since = (case jprop params ''since'' of Some (JNum t) \<Rightarrow> Some t | _ \<Rightarrow> None);
          clear = (jprop params ''clear'' = Some (JBool True));
          channel = (case jprop params ''channel'' of Some (JStr c) \<Rightarrow> Some c | _ \<Rightarrow> None);
          events1 = (if nonempty channel then filter (\<lambda>event. ev_channel event = the channel) buf
                     else buf);
          events2 = (case since of
                       Some t \<Rightarrow> filter (\<lambda>event. ev_timestamp event \<ge> t) events1
                     | None \<Rightarrow> events1);
          events3 = (if limit < int (length events2)
                     then drop (nat (int (length events2) - limit)) events2
                     else events2);
          same_array = (\<not> nonempty channel \<and> since = None \<and> \<not> limit < int (length events2));
          result = \<lparr> er_channel = (if nonempty channel then the channel else activeChannel s),
                     er_total = length buf,
                     er_returned = length events3,
                     er_events = (if clear \<and> same_array then [] else events3) \<rparr>
      in (result, if clear then s\<lparr>eventBuffer := []\<rparr> else s))"

record clear_result =
  cr_cleared :: nat
  cr_channel :: "string option"

definition clearEvents :: "json \<Rightarrow> 'a relay_scheme \<Rightarrow> clear_result \<times> 'a relay_scheme" where
  "clearEvents params s =
     (let channel = (case jprop params ''channel'' of Some (JStr c) \<Rightarrow> Some c | _ \<Rightarrow> None)
      in if \<not> nonempty channel
         then (\<lparr> cr_cleared = length (eventBuffer s), cr_channel = None \<rparr>, s\<lparr>eventBuffer := []\<rparr>)
         else let kept = filter (\<lambda>event. ev_channel event \<noteq> the channel) (eventBuffer s)
              in (\<lparr> cr_cleared = length (eventBuffer s) - length kept, cr_channel = channel \<rparr>,
                  s\<lparr>eventBuffer := kept\<rparr>))"

text \<open>
  A value of the \<^verbatim>\<open>counts\<close> object of \<^verbatim>\<open>listChannels\<close>: a number, or, for a channel
  named like a member of \<^verbatim>\<open>Object.prototype\<close>, the string that \<^verbatim>\<open>+ 1\<close> makes of that
  function: its source text followed by so many characters \<^verbatim>\<open>1\<close>.
\<close>

datatype counter = Count nat | MemberText string nat

text \<open>
  \<^verbatim>\<open>counts[event.channel] = (counts[event.channel] || 0) + 1\<close> on the plain object
  \<^verbatim>\<open>counts\<close>. Under \<^verbatim>\<open>__proto__\<close> the read yields the prototype object and the
  assignment of the resulting string is ignored.
\<close>

definition countEvent :: "string \<Rightarrow> (string \<times> counter) list \<Rightarrow> (string \<times> counter) list" where
  "countEvent channel counts =
     (if channel = ''__proto__'' then counts
      else case map_of counts channel of
        Some (Count n) \<Rightarrow> objSet channel (Count (n + 1)) counts
      | Some (MemberText member k) \<Rightarrow> objSet channel (MemberText member (k + 1)) counts
      | None \<Rightarrow>
          if channel \<in> set objectPrototypeMembers
          then objSet channel (MemberText channel 1) counts
          else objSet channel (Count 1) counts)"

record channels_result =
  lc_activeChannel :: string
  lc_channels :: "string list"
  lc_counts :: "(string \<times> counter) list"

definition listChannels :: "'a relay_scheme \<Rightarrow> channels_result" where
  "listChannels s =
     \<lparr> lc_activeChannel = activeChannel s,
       lc_channels = channels s,
       lc_counts = fold (\<lambda>event counts. countEvent (ev_channel event) counts) (eventBuffer s) [] \<rparr>"

text \<open>\<^verbatim>\<open>joinChannel(channel)\<close>; the result is the \<^verbatim>\<open>channel\<close> field of the returned object.\<close>

definition joinChannel :: "string \<Rightarrow> 'a relay_scheme \<Rightarrow> string \<times> 'a relay_scheme" where
  "joinChannel channel s =
     (let s1 = s\<lparr>channels := setAdd channel (channels s)\<rparr>;
          s2 = s1\<lparr>activeChannel := channel\<rparr>
      in (activeChannel s2, s2))"

record leave_result =
  lv_activeChannel :: string
  lv_left :: string

definition leaveChannel ::
  "string \<Rightarrow> bool \<Rightarrow> 'a relay_scheme \<Rightarrow> leave_result \<times> 'a relay_scheme" where
  "leaveChannel channel clear s =
     (let s1 = (if channel \<noteq> ''default''
                then s\<lparr>channels := removeAll channel (channels s)\<rparr> else s);
          s2 = (if clear then snd (clearEvents (JObj [(''channel'', JStr channel)]) s1) else s1);
          s3 = (if activeChannel s2 = channel then s2\<lparr>activeChannel := ''default''\<rparr> else s2)
      in (\<lparr> lv_activeChannel = activeChannel s3, lv_left = channel \<rparr>, s3))"

section \<open>Snapshot diff\<close>

definition normalizeSnapshotInput :: "json option \<Rightarrow> json list" where
  "normalizeSnapshotInput input =
     (case input of
        Some (JArr nodes) \<Rightarrow> nodes
      | Some (JObj kvs) \<Rightarrow> (case map_of kvs ''nodes'' of Some (JArr nodes) \<Rightarrow> nodes | _ \<Rightarrow> [])
      | _ \<Rightarrow> [])"

text \<open>The loops filling \<^verbatim>\<open>beforeMap\<close> and \<^verbatim>\<open>afterMap\<close>.\<close>

definition nodeMap :: "json list \<Rightarrow> (string \<times> json) list" where
  "nodeMap nodes =
     fold (\<lambda>node m.
             if truthy node
             then (case jprop node ''id'' of Some (JStr i) \<Rightarrow> AList.update i node m | _ \<Rightarrow> m)
             else m)
          nodes []"

text \<open>\<^verbatim>\<open>Object.keys(node)\<close>.\<close>

fun objectKeys :: "json \<Rightarrow> string list" where
  "objectKeys (JObj kvs) = map fst kvs"
| "objectKeys _ = []"

record diff_result =
  addedCount :: nat
  removedCount :: nat
  changedCount :: nat
  added :: "json list"
  removed :: "json list"
  changed :: "(string \<times> (string \<times> json option \<times> json option) list) list"

text \<open>
  The inner loop over the keys of one node present on both sides. \<open>stringify\<close> is
  \<^verbatim>\<open>JSON.stringify\<close> on a JSON value; on \<^verbatim>\<open>undefined\<close> it yields \<^verbatim>\<open>undefined\<close>.
  \<^verbatim>\<open>fields\<close> is a plain object: the assignment \<^verbatim>\<open>fields[key] = {before, after}\<close> under
  the key \<^verbatim>\<open>__proto__\<close> replaces its prototype and adds no property. A key that one
  of the nodes lacks reads there as \<^verbatim>\<open>undefined\<close> or as a function inherited from
  \<^verbatim>\<open>Object.prototype\<close>; \<^verbatim>\<open>JSON.stringify\<close> yields \<^verbatim>\<open>undefined\<close> for both and leaves
  both out of the result, so both are \<open>None\<close> here.
\<close>

definition changedFields ::
  "(json \<Rightarrow> string) \<Rightarrow> string list \<Rightarrow> json \<Rightarrow> json
     \<Rightarrow> (string \<times> json option \<times> json option) list" where
  "changedFields stringify ignoreFields beforeNode afterNode =
     fold (\<lambda>key fields.
             if key \<in> set ignoreFields then fields
             else let beforeValue = jprop beforeNode key;
                      afterValue = jprop afterNode key
                  in if map_option stringify beforeValue \<noteq> map_option stringify afterValue
                     then (if key = ''__proto__'' then fields
                           else objSet key (beforeValue, afterValue) fields)
                     else fields)
          (newSet (objectKeys beforeNode @ objectKeys afterNode)) []"

definition diffSnapshots :: "(json \<Rightarrow> string) \<Rightarrow> json \<Rightarrow> diff_result" where
  "diffSnapshots stringify params =
     (let beforeNodes = normalizeSnapshotInput (jprop params ''before'');
          afterNodes = normalizeSnapshotInput (jprop params ''after'');
          ignoreFields = (case jprop params ''ignoreFields'' of
                            Some (JArr items) \<Rightarrow>
                              concat (map (\<lambda>item. case item of JStr f \<Rightarrow> [f] | _ \<Rightarrow> []) items)
                          | _ \<Rightarrow> [''children'']);
          beforeMap = nodeMap beforeNodes;
          afterMap = nodeMap afterNodes;
          added = map snd (filter (\<lambda>(i, afterNode). map_of beforeMap i = None) afterMap);
          removed = map snd (filter (\<lambda>(i, beforeNode). map_of afterMap i = None) beforeMap);
          changed = concat (map (\<lambda>(i, beforeNode).
                       case map_of afterMap i of
                         None \<Rightarrow> []
                       | Some afterNode \<Rightarrow>
                           if \<not> truthy afterNode then []
                           else let fields = changedFields stringify ignoreFields beforeNode afterNode
                                in if length fields > 0 then [(i, fields)] else [])
                     beforeMap)
      in \<lparr> addedCount = length added, removedCount = length removed,
           changedCount = length changed,
           added = added, removed = removed, changed = changed \<rparr>)"

section \<open>Tool dispatch and batch execution\<close>












section \<open>Runs of the relay\<close>

text \<open>
  What can happen to the relay, one handler at a time: a socket connects, delivers data,
  starts closing or has closed; the host polls or posts; a call is forwarded; a timer
  expires; a local tool that changes the state is called.
\<close>

datatype input =
    Connect
  | SocketMessage nat string int "json option"
  | SocketClosing nat
  | SocketClose nat
  | HttpPull
  | HttpPush "json option"
  | HttpEvent string int "json option"
  | CallPlugin string string json
  | TimerExpires nat
  | CallGetEvents json
  | CallClearEvents json
  | CallJoinChannel string
  | CallLeaveChannel string bool

fun step :: "input \<Rightarrow> 'a relay_scheme \<Rightarrow> 'a relay_scheme" where
  "step Connect s = onConnection s"
| "step (SocketMessage socket eid now parsed) s = onMessage eid now parsed s"
| "step (SocketClosing socket) s = s\<lparr>readyState := (readyState s)(socket := CLOSING)\<rparr>"
| "step (SocketClose socket) s =
     onClose socket (s\<lparr>readyState := (readyState s)(socket := CLOSED)\<rparr>)"
| "step HttpPull s = snd (httpPull s)"
| "step (HttpPush parsed) s = snd (httpPush parsed s)"
| "step (HttpEvent eid now parsed) s = snd (httpEvent eid now parsed s)"
| "step (CallPlugin i method params) s = snd (sendToPlugin i method params s)"
| "step (TimerExpires call) s = timerFires call s"
| "step (CallGetEvents params) s = snd (getEvents params s)"
| "step (CallClearEvents params) s = snd (clearEvents params s)"
| "step (CallJoinChannel channel) s = snd (joinChannel channel s)"
| "step (CallLeaveChannel channel clear) s = snd (leaveChannel channel clear s)"

definition run :: "input list \<Rightarrow> 'a relay_scheme \<Rightarrow> 'a relay_scheme" where
  "run ins s = fold step ins s"

text \<open>
  The invariant of the correlation table \<open>P\<close>, the armed timers \<open>T\<close>, the settlement log
  \<open>L\<close> and the number \<open>n\<close> of promises created: timers and table keys are unique, the
  timer of every table entry is armed, a call with an armed timer is not settled, and a
  call without one is settled once.
\<close>

definition corr_ok ::
  "(string \<times> nat) list \<Rightarrow> (nat \<times> string) list \<Rightarrow> (nat \<times> settlement) list \<Rightarrow> nat \<Rightarrow> bool" where
  "corr_ok P T L n \<longleftrightarrow>
     distinct (map fst T) \<and> distinct (map fst P) \<and>
     (\<forall>(i, c) \<in> set P. (c, i) \<in> set T) \<and>
     (\<forall>c \<in> fst ` set T. c < n \<and> c \<notin> fst ` set L) \<and>
     (\<forall>c < n. c \<notin> fst ` set T \<longrightarrow> length (filter (\<lambda>e. fst e = c) L) = 1) \<and>
     (\<forall>c \<in> fst ` set L. c < n)"

definition corr_inv :: "'a relay_scheme \<Rightarrow> bool" where
  "corr_inv s = corr_ok (pending s) (timers s) (settled s) (nextCall s)"

section \<open>Sample data\<close>

definition sampleEvent :: "string \<Rightarrow> string \<Rightarrow> int \<Rightarrow> event_entry" where
  "sampleEvent name channel t =
     \<lparr> ev_id = name, ev_event = name, ev_payload = None, ev_timestamp = t, ev_channel = channel \<rparr>"

definition twoCalls :: "input list" where
  "twoCalls = [Connect, CallPlugin ''1-a'' ''get_selection'' (JObj []),
               CallPlugin ''2-b'' ''get_node_info'' (JObj [(''nodeId'', JStr ''1:2'')])]"


definition twoChannels :: relay where
  "twoChannels = fold pushEvent
     [sampleEvent ''a'' ''design'' 1, sampleEvent ''b'' ''default'' 2, sampleEvent ''c'' ''design'' 3]
     (initial 200 15000)"

definition taggedEvent :: json where
  "taggedEvent = JObj [(''type'', JStr ''event''), (''event'', JStr ''selectionchange''),
                       (''channel'', JStr ''design-sync'')]"

text \<open>
  A serializer in the manner of \<^verbatim>\<open>JSON.stringify\<close> for the samples (no escapes in
  strings).
\<close>

definition digit :: "nat \<Rightarrow> char" where
  "digit n = ''0123456789'' ! (n mod 10)"

fun decimal :: "nat \<Rightarrow> string" where
  "decimal n = (if n < 10 then [digit n] else decimal (n div 10) @ [digit (n mod 10)])"

fun commaSep :: "string list \<Rightarrow> string" where
  "commaSep [] = []"
| "commaSep [x] = x"
| "commaSep (x # y # ys) = x @ '','' @ commaSep (y # ys)"

fun sampleStringify :: "json \<Rightarrow> string" where
  "sampleStringify JNull = ''null''"
| "sampleStringify (JBool b) = (if b then ''true'' else ''false'')"
| "sampleStringify (JNum n) = (if n < 0 then ''-'' @ decimal (nat (- n)) else decimal (nat n))"
| "sampleStringify (JStr str) = [CHR 0x22] @ str @ [CHR 0x22]"
| "sampleStringify (JArr xs) = ''['' @ commaSep (map sampleStringify xs) @ '']''"
| "sampleStringify (JObj kvs) =
     ''{'' @ commaSep (map (\<lambda>kv. [CHR 0x22] @ fst kv @ [CHR 0x22] @ '':'' @ sampleStringify (snd kv)) kvs)
     @ ''}''"

definition sampleSnapshot :: json where
  "sampleSnapshot = JObj [(''timestamp'', JNum 1700),
     (''nodes'', JArr [JObj [(''id'', JStr ''1:2''), (''x'', JNum 10), (''children'', JArr [])],
                      JObj [(''id'', JStr ''1:3''), (''name'', JStr ''Frame'')]])]"

definition movedSnapshot :: json where
  "movedSnapshot = JArr [JObj [(''id'', JStr ''1:2''), (''x'', JNum 20), (''children'', JArr [])],
                         JObj [(''id'', JStr ''1:4'')]]"





section \<open>Properties of the event buffer\<close>

lemma splice0_window:
  "int (length xs) > M \<Longrightarrow> splice0 (int (length xs) - M) xs = drop (length xs - nat M) xs"
  unfolding splice0_def by (cases "0 \<le> M") (simp_all add: nat_diff_distrib')

lemma window_window:
  "drop (length (drop (length xs - c) xs @ ys) - c) (drop (length xs - c) xs @ ys)
     = drop (length (xs @ ys) - c) (xs @ ys)"
  by (cases "length xs \<le> c") (auto simp: min_def add.commute)

lemma eventBuffer_pushEvent:
  "eventBuffer (pushEvent e s) =
     drop (length (eventBuffer s @ [e]) - nat (MAX_EVENTS s)) (eventBuffer s @ [e])"
proof (cases "int (length (eventBuffer s @ [e])) > MAX_EVENTS s")
  case True
  then show ?thesis
    using splice0_window [of "MAX_EVENTS s" "eventBuffer s @ [e]"]
    by (simp add: pushEvent_def Let_def)
next
  case False
  then have "length (eventBuffer s @ [e]) - nat (MAX_EVENTS s) = 0" by simp
  with False show ?thesis by (simp add: pushEvent_def Let_def)
qed

lemma MAX_EVENTS_pushEvent [simp]: "MAX_EVENTS (pushEvent e s) = MAX_EVENTS s"
  by (simp add: pushEvent_def Let_def)

lemma MAX_EVENTS_fold_pushEvent [simp]: "MAX_EVENTS (fold pushEvent es s) = MAX_EVENTS s"
  by (induction es arbitrary: s) simp_all

lemma eventBuffer_fold_pushEvent:
  "length (eventBuffer s) \<le> nat (MAX_EVENTS s) \<Longrightarrow>
   eventBuffer (fold pushEvent es s) =
     drop (length (eventBuffer s @ es) - nat (MAX_EVENTS s)) (eventBuffer s @ es)"
proof (induction es arbitrary: s)
  case Nil
  then show ?case by simp
next
  case (Cons e es)
  let ?c = "nat (MAX_EVENTS s)"
  let ?b = "eventBuffer s @ [e]"
  have step: "eventBuffer (pushEvent e s) = drop (length ?b - ?c) ?b"
    by (rule eventBuffer_pushEvent)
  have len: "length (eventBuffer (pushEvent e s)) \<le> nat (MAX_EVENTS (pushEvent e s))"
    unfolding step by simp
  have "eventBuffer (fold pushEvent (e # es) s) =
        drop (length (drop (length ?b - ?c) ?b @ es) - ?c) (drop (length ?b - ?c) ?b @ es)"
    using Cons.IH [OF len] unfolding step by simp
  also have "\<dots> = drop (length (?b @ es) - ?c) (?b @ es)"
    by (rule window_window)
  finally show ?case by simp
qed

text \<open>
  C5. Starting from a buffer within its capacity \<open>C\<close> (the initial buffer is empty),
  after any sequence of appends the buffer is exactly the last \<open>C\<close> events appended, in
  append order; its size never exceeds \<open>C\<close>, and is \<open>C\<close> as soon as more than \<open>C\<close> events
  have been appended.
\<close>

theorem pushEvent_retains_most_recent:
  assumes "length (eventBuffer s) \<le> nat (MAX_EVENTS s)"
  shows "eventBuffer (fold pushEvent es s) =
           drop (length (eventBuffer s @ es) - nat (MAX_EVENTS s)) (eventBuffer s @ es)
         \<and> length (eventBuffer (fold pushEvent es s)) \<le> nat (MAX_EVENTS s)
         \<and> (nat (MAX_EVENTS s) < length (eventBuffer s @ es) \<longrightarrow>
              length (eventBuffer (fold pushEvent es s)) = nat (MAX_EVENTS s))"
  using eventBuffer_fold_pushEvent [OF assms, of es] by auto

theorem pushEvent_retains_most_recent_witness:
  "length (eventBuffer (initial 2 15000)) \<le> nat (MAX_EVENTS (initial 2 15000))
   \<and> eventBuffer (fold pushEvent
        [sampleEvent ''a'' ''default'' 1, sampleEvent ''b'' ''default'' 2,
         sampleEvent ''c'' ''default'' 3] (initial 2 15000))
     = [sampleEvent ''b'' ''default'' 2, sampleEvent ''c'' ''default'' 3]"
  using pushEvent_retains_most_recent [of "initial 2 15000"
      "[sampleEvent ''a'' ''default'' 1, sampleEvent ''b'' ''default'' 2,
        sampleEvent ''c'' ''default'' 3]"]
  by (simp add: initial_def)

section \<open>Properties of the correlation table\<close>

lemma delete_filter: "AList.delete k al = filter (\<lambda>p. fst p \<noteq> k) al"
  by (induction al) auto

lemma set_update_subset: "set (AList.update k v al) \<subseteq> insert (k, v) (set al)"
  by (induction al) auto

lemma update_mem: "(k, v) \<in> set (AList.update k v al)"
  by (induction al) auto

lemma corr_ok_settle:
  assumes ok: "corr_ok P T L n" and armed: "(c, i) \<in> set T"
  shows "corr_ok (AList.delete i P) (AList.delete c T) (L @ [(c, x)]) n"
proof -
  from ok have dT: "distinct (map fst T)" and dP: "distinct (map fst P)"
    and PT: "\<And>i' c'. (i', c') \<in> set P \<Longrightarrow> (c', i') \<in> set T"
    and Tn: "\<And>c'. c' \<in> fst ` set T \<Longrightarrow> c' < n \<and> c' \<notin> fst ` set L"
    and once: "\<And>c'. c' < n \<Longrightarrow> c' \<notin> fst ` set T \<Longrightarrow> length (filter (\<lambda>e. fst e = c') L) = 1"
    and Ln: "\<And>c'. c' \<in> fst ` set L \<Longrightarrow> c' < n"
    unfolding corr_ok_def by auto
  have uniq: "\<And>j. (c, j) \<in> set T \<Longrightarrow> j = i"
    using dT armed by (meson eq_key_imp_eq_value)
  have cn: "c < n" and cL: "c \<notin> fst ` set L"
    using Tn [of c] armed by force+
  have c0: "filter (\<lambda>e. fst e = c) L = []"
    using cL by (auto simp: filter_empty_conv)
  show ?thesis
    unfolding corr_ok_def
  proof (intro conjI)
    show "distinct (map fst (AList.delete c T))" using dT by (simp add: distinct_delete)
    show "distinct (map fst (AList.delete i P))" using dP by (simp add: distinct_delete)
    show "\<forall>(i', c') \<in> set (AList.delete i P). (c', i') \<in> set (AList.delete c T)"
      using PT uniq by (auto simp: delete_filter)
    show "\<forall>c' \<in> fst ` set (AList.delete c T). c' < n \<and> c' \<notin> fst ` set (L @ [(c, x)])"
      using Tn by (auto simp: delete_filter)
    show "\<forall>c' < n. c' \<notin> fst ` set (AList.delete c T) \<longrightarrow>
            length (filter (\<lambda>e. fst e = c') (L @ [(c, x)])) = 1"
    proof (intro allI impI)
      fix c' assume a: "c' < n" "c' \<notin> fst ` set (AList.delete c T)"
      show "length (filter (\<lambda>e. fst e = c') (L @ [(c, x)])) = 1"
      proof (cases "c' = c")
        case True then show ?thesis using c0 by simp
      next
        case False
        with a have "c' \<notin> fst ` set T" by (force simp: delete_filter)
        with once a False show ?thesis by simp
      qed
    qed
    show "\<forall>c' \<in> fst ` set (L @ [(c, x)]). c' < n" using Ln cn by auto
  qed
qed

lemma corr_ok_register:
  assumes ok: "corr_ok P T L n"
  shows "corr_ok (AList.update i n P) (T @ [(n, i)]) L (Suc n)"
proof -
  from ok have dT: "distinct (map fst T)" and dP: "distinct (map fst P)"
    and PT: "\<And>i' c'. (i', c') \<in> set P \<Longrightarrow> (c', i') \<in> set T"
    and Tn: "\<And>c'. c' \<in> fst ` set T \<Longrightarrow> c' < n \<and> c' \<notin> fst ` set L"
    and once: "\<And>c'. c' < n \<Longrightarrow> c' \<notin> fst ` set T \<Longrightarrow> length (filter (\<lambda>e. fst e = c') L) = 1"
    and Ln: "\<And>c'. c' \<in> fst ` set L \<Longrightarrow> c' < n"
    unfolding corr_ok_def by auto
  have nT: "n \<notin> fst ` set T" using Tn by blast
  have nL: "n \<notin> fst ` set L" using Ln by blast
  show ?thesis
    unfolding corr_ok_def
  proof (intro conjI)
    show "distinct (map fst (T @ [(n, i)]))" using dT nT by simp
    show "distinct (map fst (AList.update i n P))" using dP by (simp add: distinct_update)
    show "\<forall>(i', c') \<in> set (AList.update i n P). (c', i') \<in> set (T @ [(n, i)])"
      using PT set_update_subset [of i n P] by auto
    show "\<forall>c' \<in> fst ` set (T @ [(n, i)]). c' < Suc n \<and> c' \<notin> fst ` set L"
      using Tn nL by (auto simp: less_Suc_eq)
    show "\<forall>c' < Suc n. c' \<notin> fst ` set (T @ [(n, i)]) \<longrightarrow> length (filter (\<lambda>e. fst e = c') L) = 1"
      using once by (auto simp: less_Suc_eq)
    show "\<forall>c' \<in> fst ` set L. c' < Suc n" using Ln by (auto simp: less_Suc_eq)
  qed
qed


lemma corr_inv_cong:
  "pending s' = pending s \<Longrightarrow> timers s' = timers s \<Longrightarrow> settled s' = settled s \<Longrightarrow>
   nextCall s' = nextCall s \<Longrightarrow> corr_inv s' = corr_inv s"
  by (simp add: corr_inv_def)

lemma corr_fields_pushEvent [simp]:
  "pending (pushEvent e s) = pending s" "timers (pushEvent e s) = timers s"
  "settled (pushEvent e s) = settled s" "nextCall (pushEvent e s) = nextCall s"
  by (simp_all add: pushEvent_def Let_def)

lemma corr_fields_handleEventMessage [simp]:
  "pending (handleEventMessage eid now m co s) = pending s"
  "timers (handleEventMessage eid now m co s) = timers s"
  "settled (handleEventMessage eid now m co s) = settled s"
  "nextCall (handleEventMessage eid now m co s) = nextCall s"
  by (simp_all add: handleEventMessage_def split: option.splits json.splits)

lemma corr_fields_tools [simp]:
  "pending (snd (getEvents p s)) = pending s" "timers (snd (getEvents p s)) = timers s"
  "settled (snd (getEvents p s)) = settled s" "nextCall (snd (getEvents p s)) = nextCall s"
  "pending (snd (clearEvents p s)) = pending s" "timers (snd (clearEvents p s)) = timers s"
  "settled (snd (clearEvents p s)) = settled s" "nextCall (snd (clearEvents p s)) = nextCall s"
  "pending (snd (joinChannel ch s)) = pending s" "timers (snd (joinChannel ch s)) = timers s"
  "settled (snd (joinChannel ch s)) = settled s" "nextCall (snd (joinChannel ch s)) = nextCall s"
  by (simp_all add: getEvents_def clearEvents_def joinChannel_def Let_def)

lemma corr_fields_leaveChannel [simp]:
  "pending (snd (leaveChannel ch b s)) = pending s" "timers (snd (leaveChannel ch b s)) = timers s"
  "settled (snd (leaveChannel ch b s)) = settled s" "nextCall (snd (leaveChannel ch b s)) = nextCall s"
  by (simp_all add: leaveChannel_def Let_def)

lemma corr_fields_httpPull [simp]:
  "pending (snd (httpPull s)) = pending s" "timers (snd (httpPull s)) = timers s"
  "settled (snd (httpPull s)) = settled s" "nextCall (snd (httpPull s)) = nextCall s"
  by (simp_all add: httpPull_def split: list.splits)

lemma corr_fields_onConnection [simp]:
  "pending (onConnection s) = pending s" "timers (onConnection s) = timers s"
  "settled (onConnection s) = settled s" "nextCall (onConnection s) = nextCall s"
  by (simp_all add: onConnection_def Let_def)

text \<open>What a reply does to the correlation state.\<close>

lemma handleResponseMessage_cases:
  "(pending (handleResponseMessage m s) = pending s \<and> timers (handleResponseMessage m s) = timers s
      \<and> settled (handleResponseMessage m s) = settled s
      \<and> nextCall (handleResponseMessage m s) = nextCall s)
   \<or> (\<exists>i c x. (i, c) \<in> set (pending s)
        \<and> pending (handleResponseMessage m s) = AList.delete i (pending s)
        \<and> timers (handleResponseMessage m s) = AList.delete c (timers s)
        \<and> settled (handleResponseMessage m s) = settled s @ [(c, x)]
        \<and> nextCall (handleResponseMessage m s) = nextCall s)"
  by (auto simp: handleResponseMessage_def clearTimeout_def resolve_def reject_def Let_def
      dest: map_of_SomeD split: option.splits json.splits)

lemma corr_inv_handleResponseMessage:
  assumes "corr_inv s" shows "corr_inv (handleResponseMessage m s)"
  using handleResponseMessage_cases [of m s]
proof (elim disjE exE conjE)
  assume "pending (handleResponseMessage m s) = pending s" "timers (handleResponseMessage m s) = timers s"
    "settled (handleResponseMessage m s) = settled s" "nextCall (handleResponseMessage m s) = nextCall s"
  then show ?thesis using assms by (simp add: corr_inv_def)
next
  fix i c x
  assume a: "(i, c) \<in> set (pending s)"
    "pending (handleResponseMessage m s) = AList.delete i (pending s)"
    "timers (handleResponseMessage m s) = AList.delete c (timers s)"
    "settled (handleResponseMessage m s) = settled s @ [(c, x)]"
    "nextCall (handleResponseMessage m s) = nextCall s"
  from assms a(1) have "(c, i) \<in> set (timers s)" by (auto simp: corr_inv_def corr_ok_def)
  with assms a show ?thesis using corr_ok_settle by (simp add: corr_inv_def)
qed

text \<open>The three ways a reply is handled: dropped, success, error.\<close>

lemma reply_unknown_id:
  assumes "jprop m ''id'' = Some (JStr i)" and "map_of (pending s) i = None"
  shows "handleResponseMessage m s = s"
  using assms by (simp add: handleResponseMessage_def)

lemma reply_success:
  assumes "jprop m ''id'' = Some (JStr i)" and "map_of (pending s) i = Some c"
    and "jprop m ''error'' = None \<or> (\<exists>e. jprop m ''error'' = Some e \<and> \<not> truthy e)"
  shows "settled (handleResponseMessage m s) = settled s @ [(c, Resolved (jprop m ''result''))]"
    and "map_of (pending (handleResponseMessage m s)) i = None"
proof -
  obtain kvs where "m = JObj kvs" using assms(1) by (cases m) simp_all
  then show "settled (handleResponseMessage m s) = settled s @ [(c, Resolved (jprop m ''result''))]"
    and "map_of (pending (handleResponseMessage m s)) i = None"
    using assms
    by (auto simp: handleResponseMessage_def clearTimeout_def resolve_def Let_def delete_conv')
qed

lemma reply_error:
  assumes "jprop m ''id'' = Some (JStr i)" and "map_of (pending s) i = Some c"
    and "jprop m ''error'' = Some e" and "truthy e"
  shows "settled (handleResponseMessage m s) = settled s @ [(c, PluginError (errorMessage e))]"
    and "map_of (pending (handleResponseMessage m s)) i = None"
proof -
  obtain kvs where "m = JObj kvs" using assms(1) by (cases m) simp_all
  then show "settled (handleResponseMessage m s) = settled s @ [(c, PluginError (errorMessage e))]"
    and "map_of (pending (handleResponseMessage m s)) i = None"
    using assms
    by (auto simp: handleResponseMessage_def clearTimeout_def reject_def Let_def delete_conv')
qed

lemma corr_inv_timerFires:
  assumes "corr_inv s" shows "corr_inv (timerFires c s)"
proof (cases "map_of (timers s) c")
  case None
  then show ?thesis using assms by (simp add: timerFires_def)
next
  case (Some i)
  then have "(c, i) \<in> set (timers s)" by (rule map_of_SomeD)
  with assms Some show ?thesis
    using corr_ok_settle by (simp add: corr_inv_def timerFires_def reject_def)
qed

lemma corr_inv_sendToPlugin:
  assumes "corr_inv s" shows "corr_inv (snd (sendToPlugin i m p s))"
  using corr_ok_register [of "pending s" "timers s" "settled s" "nextCall s" i] assms
  by (simp add: corr_inv_def sendToPlugin_def Let_def split: option.splits)

lemma failPending_step_fields:
  "pending (reject c x ((clearTimeout c s)\<lparr>pending := AList.delete i (pending (clearTimeout c s))\<rparr>))
     = AList.delete i (pending s)"
  "timers (reject c x ((clearTimeout c s)\<lparr>pending := AList.delete i (pending (clearTimeout c s))\<rparr>))
     = AList.delete c (timers s)"
  "settled (reject c x ((clearTimeout c s)\<lparr>pending := AList.delete i (pending (clearTimeout c s))\<rparr>))
     = settled s @ [(c, x)]"
  "nextCall (reject c x ((clearTimeout c s)\<lparr>pending := AList.delete i (pending (clearTimeout c s))\<rparr>))
     = nextCall s"
  by (simp_all add: reject_def clearTimeout_def)

lemma corr_inv_failPending:
  "corr_inv s \<Longrightarrow> set es \<subseteq> set (pending s) \<Longrightarrow> distinct (map fst es) \<Longrightarrow>
   corr_inv (failPending es s)"
proof (induction es arbitrary: s)
  case Nil
  then show ?case by simp
next
  case (Cons e es)
  obtain i c where e: "e = (i, c)" by (cases e)
  let ?s' = "reject c Disconnected
               ((clearTimeout c s)\<lparr>pending := AList.delete i (pending (clearTimeout c s))\<rparr>)"
  from Cons.prems e have mem: "(i, c) \<in> set (pending s)" by simp
  with Cons.prems(1) have armed: "(c, i) \<in> set (timers s)"
    by (auto simp: corr_inv_def corr_ok_def)
  have inv': "corr_inv ?s'"
    using corr_ok_settle [OF _ armed, of "pending s" "settled s" "nextCall s" Disconnected]
      Cons.prems(1)
    by (simp add: corr_inv_def failPending_step_fields)
  have "i \<notin> fst ` set es" using Cons.prems(3) e by simp
  then have fresh: "\<forall>x \<in> set es. fst x \<noteq> i" by (metis imageI)
  have "pending ?s' = filter (\<lambda>p. fst p \<noteq> i) (pending s)"
    by (simp add: reject_def clearTimeout_def delete_filter)
  then have sub': "set es \<subseteq> set (pending ?s')"
    using Cons.prems(2) fresh by auto
  have "corr_inv (failPending es ?s')"
    using Cons.IH [OF inv' sub'] Cons.prems(3) by simp
  then show ?case by (simp add: e)
qed

lemma corr_inv_onClose:
  assumes "corr_inv s" shows "corr_inv (onClose sock s)"
proof -
  let ?s1 = "if activeSocket s = Some sock then s\<lparr>activeSocket := None\<rparr> else s"
  have "corr_inv ?s1" using assms by (simp add: corr_inv_def)
  moreover have "distinct (map fst (pending ?s1))"
    using assms by (simp add: corr_inv_def corr_ok_def)
  ultimately have "corr_inv (failPending (pending ?s1) ?s1)"
    by (intro corr_inv_failPending) simp_all
  then show ?thesis by (simp add: onClose_def Let_def)
qed

lemma corr_inv_step:
  assumes "corr_inv s" shows "corr_inv (step a s)"
proof (cases a)
  case Connect
  then show ?thesis using assms by (simp add: corr_inv_def)
next
  case (SocketMessage sock eid now parsed)
  then show ?thesis
    using assms corr_inv_handleResponseMessage [OF assms]
    by (auto simp: onMessage_def corr_inv_def split: option.splits json.splits)
next
  case (SocketClosing sock)
  then show ?thesis using assms by (simp add: corr_inv_def)
next
  case (SocketClose sock)
  have "corr_inv (s\<lparr>readyState := (readyState s)(sock := CLOSED)\<rparr>)"
    using assms by (simp add: corr_inv_def)
  then show ?thesis using SocketClose by (simp add: corr_inv_onClose)
next
  case HttpPull
  then show ?thesis using assms by (simp add: corr_inv_def)
next
  case (HttpPush parsed)
  then show ?thesis
    using assms corr_inv_handleResponseMessage [OF assms]
    by (auto simp: httpPush_def split: option.splits)
next
  case (HttpEvent eid now parsed)
  then show ?thesis using assms by (auto simp: httpEvent_def corr_inv_def split: option.splits)
next
  case (CallPlugin i m p)
  then show ?thesis using assms by (simp add: corr_inv_sendToPlugin)
next
  case (TimerExpires c)
  then show ?thesis using assms by (simp add: corr_inv_timerFires)
next
  case (CallGetEvents p)
  then show ?thesis using assms by (simp add: corr_inv_def)
next
  case (CallClearEvents p)
  then show ?thesis using assms by (simp add: corr_inv_def)
next
  case (CallJoinChannel ch)
  then show ?thesis using assms by (simp add: corr_inv_def)
next
  case (CallLeaveChannel ch b)
  then show ?thesis using assms by (simp add: corr_inv_def)
qed

lemma corr_inv_run: "corr_inv s \<Longrightarrow> corr_inv (run ins s)"
  unfolding run_def by (induction ins arbitrary: s) (simp_all add: corr_inv_step)

lemma corr_inv_initial: "corr_inv (initial m t)"
  by (simp add: corr_inv_def corr_ok_def initial_def)


lemma failPending_settled:
  "settled (failPending es s) = settled s @ map (\<lambda>(i, c). (c, Disconnected)) es"
  by (induction es arbitrary: s) (auto simp: reject_def clearTimeout_def)

lemma failPending_pending:
  "pending (failPending es s) = filter (\<lambda>p. fst p \<notin> fst ` set es) (pending s)"
  by (induction es arbitrary: s) (auto simp: reject_def clearTimeout_def delete_filter intro: filter_cong)

lemma failPending_timers:
  "timers (failPending es s) = filter (\<lambda>p. fst p \<notin> snd ` set es) (timers s)"
  by (induction es arbitrary: s) (auto simp: reject_def clearTimeout_def delete_filter intro: filter_cong)

lemma failPending_frame [simp]:
  "nextCall (failPending es s) = nextCall s"
  "requestQueue (failPending es s) = requestQueue s"
  "activeSocket (failPending es s) = activeSocket s"
  "eventBuffer (failPending es s) = eventBuffer s"
  by (induction es arbitrary: s) (auto simp: reject_def clearTimeout_def)

lemma handleResponseMessage_settled_extends:
  "\<exists>ys. settled (handleResponseMessage m s) = settled s @ ys"
  using handleResponseMessage_cases [of m s] by auto

lemma handleResponseMessage_nextCall [simp]:
  "nextCall (handleResponseMessage m s) = nextCall s"
  using handleResponseMessage_cases [of m s] by auto

lemma step_settled_extends: "\<exists>ys. settled (step a s) = settled s @ ys"
proof (cases a)
  case (SocketMessage sock eid now parsed)
  then show ?thesis using handleResponseMessage_settled_extends [of _ s]
    by (simp add: onMessage_def split: option.splits json.splits)
next
  case (HttpPush parsed)
  then show ?thesis using handleResponseMessage_settled_extends [of _ s]
    by (simp add: httpPush_def split: option.splits)
next
  case (SocketClose sock)
  then show ?thesis by (simp add: onClose_def Let_def failPending_settled)
next
  case (TimerExpires c)
  then show ?thesis by (simp add: timerFires_def reject_def split: option.splits)
next
  case (CallPlugin i m p)
  then show ?thesis by (simp add: sendToPlugin_def Let_def split: option.splits)
next
  case (HttpEvent eid now parsed)
  then show ?thesis by (simp add: httpEvent_def split: option.splits)
qed simp_all

lemma step_nextCall_mono: "nextCall s \<le> nextCall (step a s)"
proof (cases a)
  case (SocketMessage sock eid now parsed)
  then show ?thesis by (simp add: onMessage_def split: option.splits json.splits)
next
  case (HttpPush parsed)
  then show ?thesis by (simp add: httpPush_def split: option.splits)
next
  case (SocketClose sock)
  then show ?thesis by (simp add: onClose_def Let_def)
next
  case (TimerExpires c)
  then show ?thesis by (simp add: timerFires_def reject_def split: option.splits)
next
  case (CallPlugin i m p)
  then show ?thesis by (simp add: sendToPlugin_def Let_def split: option.splits)
next
  case (HttpEvent eid now parsed)
  then show ?thesis by (simp add: httpEvent_def split: option.splits)
qed simp_all

lemma run_settled_extends: "\<exists>ys. settled (run ins s) = settled s @ ys"
proof (induction ins arbitrary: s)
  case Nil
  then show ?case by (simp add: run_def)
next
  case (Cons a ins)
  obtain ys where "settled (step a s) = settled s @ ys" using step_settled_extends by blast
  moreover obtain zs where "settled (run ins (step a s)) = settled (step a s) @ zs"
    using Cons.IH by blast
  ultimately show ?case by (simp add: run_def)
qed

lemma run_nextCall_mono: "nextCall s \<le> nextCall (run ins s)"
proof (induction ins arbitrary: s)
  case Nil
  then show ?case by (simp add: run_def)
next
  case (Cons a ins)
  have "nextCall s \<le> nextCall (step a s)" by (rule step_nextCall_mono)
  also have "\<dots> \<le> nextCall (run ins (step a s))" by (rule Cons.IH)
  finally show ?case by (simp add: run_def)
qed

lemma run_append: "run (xs @ ys) s = run ys (run xs s)"
  by (simp add: run_def)

lemma corr_inv_settlements:
  assumes "corr_inv s" "c < nextCall s"
  shows "length (settlements c s) \<le> 1"
    and "settlements c s = [] \<longleftrightarrow> c \<in> fst ` set (timers s)"
proof -
  from assms(1) have
    Tn: "\<And>c'. c' \<in> fst ` set (timers s) \<Longrightarrow> c' \<notin> fst ` set (settled s)"
    and once: "\<And>c'. c' < nextCall s \<Longrightarrow> c' \<notin> fst ` set (timers s) \<Longrightarrow>
                 length (filter (\<lambda>e. fst e = c') (settled s)) = 1"
    unfolding corr_inv_def corr_ok_def by auto
  show "length (settlements c s) \<le> 1"
  proof (cases "c \<in> fst ` set (timers s)")
    case True
    then have "filter (\<lambda>e. fst e = c) (settled s) = []"
      using Tn [of c] by (force simp: filter_empty_conv)
    then show ?thesis by (simp add: settlements_def)
  next
    case False
    then show ?thesis using once [OF assms(2)] by (simp add: settlements_def)
  qed
  show "settlements c s = [] \<longleftrightarrow> c \<in> fst ` set (timers s)"
  proof (cases "c \<in> fst ` set (timers s)")
    case True
    then have "filter (\<lambda>e. fst e = c) (settled s) = []"
      using Tn [of c] by (force simp: filter_empty_conv)
    then show ?thesis using True by (simp add: settlements_def)
  next
    case False
    have "length (settlements c s) = 1" using once [OF assms(2) False] by (simp add: settlements_def)
    then have "settlements c s \<noteq> []" by auto
    then show ?thesis using False by simp
  qed
qed

lemma timerFires_armed:
  assumes "distinct (map fst (timers s))" "c \<in> fst ` set (timers s)"
  shows "settlements c (timerFires c s) = settlements c s @ [TimeoutError (REQUEST_TIMEOUT_MS s)]"
proof -
  from assms(2) obtain i where "(c, i) \<in> set (timers s)" by auto
  then have "map_of (timers s) c = Some i" using assms(1) by simp
  then show ?thesis by (simp add: timerFires_def reject_def settlements_def)
qed

lemma timerFires_timers: "timers (timerFires c s) = AList.delete c (timers s)"
proof (cases "map_of (timers s) c")
  case None
  then have "\<forall>p \<in> set (timers s). fst p \<noteq> c" by (metis imageI map_of_eq_None_iff)
  then have "filter (\<lambda>p. fst p \<noteq> c) (timers s) = timers s" by (simp add: filter_id_conv)
  with None show ?thesis by (simp add: timerFires_def delete_filter)
next
  case (Some i)
  then show ?thesis by (simp add: timerFires_def reject_def)
qed

lemma timerFires_nextCall [simp]: "nextCall (timerFires c s) = nextCall s"
  by (simp add: timerFires_def reject_def split: option.splits)

lemma fold_timerFires_timers:
  "timers (fold timerFires cs s) = filter (\<lambda>p. fst p \<notin> set cs) (timers s)"
  by (induction cs arbitrary: s) (auto simp: timerFires_timers delete_filter intro: filter_cong)

lemma fold_timerFires_inv: "corr_inv s \<Longrightarrow> corr_inv (fold timerFires cs s)"
  by (induction cs arbitrary: s) (simp_all add: corr_inv_timerFires)

lemma fold_timerFires_nextCall [simp]: "nextCall (fold timerFires cs s) = nextCall s"
  by (induction cs arbitrary: s) simp_all

lemma fireAll_timers: "timers (fireAll s) = []"
  by (simp add: fireAll_def fold_timerFires_timers)

lemma fireAll_settled_once:
  assumes "corr_inv s" "c < nextCall s"
  shows "length (settlements c (fireAll s)) = 1" and "pending (fireAll s) = []"
proof -
  have inv: "corr_inv (fireAll s)" using assms(1) by (simp add: fireAll_def fold_timerFires_inv)
  have n: "nextCall (fireAll s) = nextCall s" by (simp add: fireAll_def)
  from inv have "length (filter (\<lambda>e. fst e = c) (settled (fireAll s))) = 1"
    using assms(2) unfolding corr_inv_def corr_ok_def by (simp add: fireAll_timers n)
  then show "length (settlements c (fireAll s)) = 1" by (simp add: settlements_def)
  from inv have "\<forall>(i, c) \<in> set (pending (fireAll s)). (c, i) \<in> set (timers (fireAll s))"
    unfolding corr_inv_def corr_ok_def by blast
  then show "pending (fireAll s) = []" by (cases "pending (fireAll s)") (auto simp: fireAll_timers)
qed

lemma settled_stays:
  assumes "corr_inv s" "c < nextCall s" "settlements c s = [x]"
  shows "settlements c (run later s) = [x]"
proof -
  obtain ys where ys: "settled (run later s) = settled s @ ys" using run_settled_extends by blast
  have "c < nextCall (run later s)" using assms(2) run_nextCall_mono [of s later] by simp
  then have "length (settlements c (run later s)) \<le> 1"
    using corr_inv_settlements(1) corr_inv_run [OF assms(1)] by blast
  moreover have "settlements c (run later s) = [x] @ map snd (filter (\<lambda>e. fst e = c) ys)"
    using assms(3) by (simp add: settlements_def ys)
  ultimately show ?thesis by simp
qed

text \<open>
  C1. In every state the relay can reach, the promise of each call issued through
  \<open>sendToPlugin\<close> has been settled at most once; it is unsettled exactly as long as its
  timer is armed, and the expiry of that timer then settles it with the timeout error;
  once settled it is never settled again, whatever happens later; and when every armed
  timer has expired, every call has been settled exactly once and the table is empty.
\<close>

theorem sendToPlugin_settled_exactly_once:
  assumes "c < nextCall (run ins (initial m t))"
  shows "let s = run ins (initial m t) in
           length (settlements c s) \<le> 1
         \<and> (settlements c s = [] \<longleftrightarrow> c \<in> fst ` set (timers s))
         \<and> (settlements c s = [] \<longrightarrow>
              settlements c (timerFires c s) = [TimeoutError (REQUEST_TIMEOUT_MS s)])
         \<and> (\<forall>x. settlements c s = [x] \<longrightarrow> settlements c (run later s) = [x])
         \<and> length (settlements c (fireAll s)) = 1
         \<and> timers (fireAll s) = [] \<and> pending (fireAll s) = []"
proof -
  let ?s = "run ins (initial m t)"
  have inv: "corr_inv ?s" by (rule corr_inv_run [OF corr_inv_initial])
  have dT: "distinct (map fst (timers ?s))" using inv by (simp add: corr_inv_def corr_ok_def)
  note a = corr_inv_settlements [OF inv assms]
  have "settlements c ?s = [] \<longrightarrow>
          settlements c (timerFires c ?s) = [TimeoutError (REQUEST_TIMEOUT_MS ?s)]"
    using a(2) timerFires_armed [OF dT, of c] by auto
  moreover have "\<forall>x. settlements c ?s = [x] \<longrightarrow> settlements c (run later ?s) = [x]"
    using settled_stays [OF inv assms] by blast
  ultimately show ?thesis
    using a fireAll_settled_once [OF inv assms] fireAll_timers [of ?s]
    by (simp add: Let_def)
qed


lemmas handler_defs =
  run_def initial_def onConnection_def onMessage_def onClose_def httpPull_def httpPush_def
  httpEvent_def sendToPlugin_def timerFires_def fireAll_def settlements_def
  handleResponseMessage_def handleEventMessage_def pushEvent_def splice0_def
  clearTimeout_def resolve_def reject_def errorMessage_def Let_def

theorem sendToPlugin_settled_exactly_once_witness:
  "0 < nextCall (run [Connect,
        CallPlugin ''1-a'' ''get_selection'' (JObj []),
        CallPlugin ''2-b'' ''get_node_info'' (JObj []),
        SocketMessage 1 ''e'' 0 (Some (JObj [(''type'', JStr ''response''), (''id'', JStr ''1-a''),
                                            (''result'', JNum 7)])),
        SocketMessage 1 ''e'' 0 (Some (JObj [(''type'', JStr ''response''), (''id'', JStr ''1-a''),
                                            (''result'', JNum 8)]))] (initial 200 15000))
   \<and> settlements 0 (run [Connect,
        CallPlugin ''1-a'' ''get_selection'' (JObj []),
        CallPlugin ''2-b'' ''get_node_info'' (JObj []),
        SocketMessage 1 ''e'' 0 (Some (JObj [(''type'', JStr ''response''), (''id'', JStr ''1-a''),
                                            (''result'', JNum 7)])),
        SocketMessage 1 ''e'' 0 (Some (JObj [(''type'', JStr ''response''), (''id'', JStr ''1-a''),
                                            (''result'', JNum 8)]))] (initial 200 15000))
     = [Resolved (Some (JNum 7))]"
  using sendToPlugin_settled_exactly_once [of 0 "[Connect,
        CallPlugin ''1-a'' ''get_selection'' (JObj []),
        CallPlugin ''2-b'' ''get_node_info'' (JObj []),
        SocketMessage 1 ''e'' 0 (Some (JObj [(''type'', JStr ''response''), (''id'', JStr ''1-a''),
                                            (''result'', JNum 7)])),
        SocketMessage 1 ''e'' 0 (Some (JObj [(''type'', JStr ''response''), (''id'', JStr ''1-a''),
                                            (''result'', JNum 8)]))]" 200 15000 "[]"]
  by (simp add: handler_defs)

section \<open>Connection loss\<close>

lemma onClose_fields:
  "pending (onClose socket s) = []"
  "settled (onClose socket s) = settled s @ map (\<lambda>(i, entry). (entry, Disconnected)) (pending s)"
  "timers (onClose socket s) = filter (\<lambda>p. fst p \<notin> snd ` set (pending s)) (timers s)"
  "activeSocket (onClose socket s) = (if activeSocket s = Some socket then None else activeSocket s)"
  "requestQueue (onClose socket s) = requestQueue s"
  by (simp_all add: onClose_def Let_def failPending_pending failPending_settled failPending_timers)

text \<open>
  C2. When the active socket closes, the close handler clears the active reference,
  leaves the correlation table empty, rejects the caller of every entry that was
  pending, once each and in table order, with the disconnection error, and no timer of
  such an entry stays armed.
\<close>

theorem close_fails_all_pending:
  assumes "activeSocket s = Some socket"
  shows "activeSocket (onClose socket s) = None
       \<and> pending (onClose socket s) = []
       \<and> settled (onClose socket s)
           = settled s @ map (\<lambda>(i, entry). (entry, Disconnected)) (pending s)
       \<and> snd ` set (pending s) \<inter> fst ` set (timers (onClose socket s)) = {}"
proof -
  have "snd ` set (pending s) \<inter> fst ` set (timers (onClose socket s)) = {}"
    unfolding onClose_fields by force
  then show ?thesis using assms by (simp add: onClose_fields)
qed


section \<open>Queued envelopes\<close>




lemma timerFires_frame [simp]:
  "requestQueue (timerFires c s) = requestQueue s"
  "outbox (timerFires c s) = outbox s"
  by (simp_all add: timerFires_def reject_def split: option.splits)


theorem close_fails_all_pending_witness:
  "activeSocket (run twoCalls (initial 200 15000)) = Some 1
   \<and> map fst (pending (run twoCalls (initial 200 15000))) = [''1-a'', ''2-b'']
   \<and> pending (onClose 1 (run twoCalls (initial 200 15000))) = []
   \<and> timers (onClose 1 (run twoCalls (initial 200 15000))) = []
   \<and> settled (onClose 1 (run twoCalls (initial 200 15000))) = [(0, Disconnected), (1, Disconnected)]"
  using close_fails_all_pending [of "run twoCalls (initial 200 15000)" 1]
  by (simp add: twoCalls_def handler_defs)



section \<open>Event queries and channel tags\<close>

text \<open>
  C3. A \<open>get_events\<close> query with \<^verbatim>\<open>clear: true\<close> leaves the whole buffer empty, whatever
  \<^verbatim>\<open>channel\<close>, \<^verbatim>\<open>since\<close> or \<^verbatim>\<open>limit\<close> it carries; nothing else of the state changes,
  and the result still reports the size the buffer had.
\<close>

theorem getEvents_clear_empties_buffer:
  assumes "jprop params ''clear'' = Some (JBool True)"
  shows "snd (getEvents params s) = s\<lparr>eventBuffer := []\<rparr>
       \<and> length (eventBuffer (snd (getEvents params s))) = 0
       \<and> er_total (fst (getEvents params s)) = length (eventBuffer s)"
  using assms by (simp add: getEvents_def Let_def)

theorem getEvents_clear_empties_buffer_witness:
  "jprop (JObj [(''channel'', JStr ''default''), (''clear'', JBool True)]) ''clear'' = Some (JBool True)
   \<and> map ev_channel (eventBuffer twoChannels) = [''design'', ''default'', ''design'']
   \<and> er_events (fst (getEvents (JObj [(''channel'', JStr ''default''), (''clear'', JBool True)])
                       twoChannels)) = [sampleEvent ''b'' ''default'' 2]
   \<and> eventBuffer (snd (getEvents (JObj [(''channel'', JStr ''default''), (''clear'', JBool True)])
                       twoChannels)) = []"
  using getEvents_clear_empties_buffer
    [of "JObj [(''channel'', JStr ''default''), (''clear'', JBool True)]" twoChannels]
  by (simp add: twoChannels_def getEvents_def handler_defs sampleEvent_def)

text \<open>
  C4, as stated, fails: an event message that carries its own \<^verbatim>\<open>channel\<close> is tagged
  with the active channel, over the socket and over \<^verbatim>\<open>POST /event\<close> alike.
\<close>

theorem event_channel_field_counterexample:
  "jprop taggedEvent ''event'' = Some (JStr ''selectionchange'')
   \<and> jprop taggedEvent ''channel'' = Some (JStr ''design-sync'')
   \<and> map ev_channel (eventBuffer (onMessage ''e1'' 5 (Some taggedEvent) (initial 200 15000)))
       = [''default'']
   \<and> map ev_channel (eventBuffer (snd (httpEvent ''e1'' 5 (Some taggedEvent) (initial 200 15000))))
       = [''default'']"
  by (simp add: taggedEvent_def handler_defs)

lemma drop_keeps_last: "k < length xs \<Longrightarrow> drop k xs \<noteq> [] \<and> last (drop k xs) = last xs"
  by (simp add: last_drop)

lemma last_pushEvent:
  assumes "0 < MAX_EVENTS s"
  shows "eventBuffer (pushEvent e s) \<noteq> []" and "last (eventBuffer (pushEvent e s)) = e"
proof -
  let ?b = "eventBuffer s @ [e]"
  have "length ?b - nat (MAX_EVENTS s) < length ?b" using assms by simp
  then have d: "drop (length ?b - nat (MAX_EVENTS s)) ?b \<noteq> []
      \<and> last (drop (length ?b - nat (MAX_EVENTS s)) ?b) = last ?b"
    by (rule drop_keeps_last)
  have b: "eventBuffer (pushEvent e s) = drop (length ?b - nat (MAX_EVENTS s)) ?b"
    by (rule eventBuffer_pushEvent)
  show "eventBuffer (pushEvent e s) \<noteq> []" using d b by metis
  have "last (eventBuffer (pushEvent e s)) = last ?b" using d b by metis
  then show "last (eventBuffer (pushEvent e s)) = e" by simp
qed

text \<open>
  C4, amended. For every inbound event message carrying an event-name string (and a
  buffer capacity of at least one), the entry appended last is tagged with the active
  channel of the relay at receipt; the message's own \<^verbatim>\<open>channel\<close> field is not read.
\<close>

theorem event_tagged_with_active_channel:
  assumes "jprop message ''event'' = Some (JStr name)" and "0 < MAX_EVENTS s"
  shows "let entry = \<lparr> ev_id = eid, ev_event = name, ev_payload = jprop message ''payload'',
                       ev_timestamp = (case jprop message ''timestamp'' of
                                         Some (JNum ts) \<Rightarrow> ts | _ \<Rightarrow> now),
                       ev_channel = activeChannel s \<rparr>
         in (jprop message ''type'' = Some (JStr ''event'') \<longrightarrow>
               eventBuffer (onMessage eid now (Some message) s) \<noteq> []
               \<and> last (eventBuffer (onMessage eid now (Some message) s)) = entry)
          \<and> eventBuffer (snd (httpEvent eid now (Some message) s)) \<noteq> []
          \<and> last (eventBuffer (snd (httpEvent eid now (Some message) s))) = entry"
proof -
  obtain kvs where m: "message = JObj kvs" using assms(1) by (cases message) simp_all
  let ?entry = "\<lparr> ev_id = eid, ev_event = name, ev_payload = jprop message ''payload'',
                   ev_timestamp = (case jprop message ''timestamp'' of
                                     Some (JNum ts) \<Rightarrow> ts | _ \<Rightarrow> now),
                   ev_channel = activeChannel s \<rparr>"
  have h: "handleEventMessage eid now message (Some (activeChannel s)) s = pushEvent ?entry s"
    using assms(1) m by (simp add: handleEventMessage_def)
  show ?thesis
    using last_pushEvent [OF assms(2), of ?entry] h m
    by (simp add: Let_def onMessage_def httpEvent_def)
qed

theorem event_tagged_with_active_channel_witness:
  "jprop taggedEvent ''event'' = Some (JStr ''selectionchange'')
   \<and> 0 < MAX_EVENTS (snd (joinChannel ''review'' (initial 200 15000)))
   \<and> ev_channel (last (eventBuffer (onMessage ''e1'' 5 (Some taggedEvent)
                         (snd (joinChannel ''review'' (initial 200 15000)))))) = ''review''"
  using event_tagged_with_active_channel [of taggedEvent "''selectionchange''"
      "snd (joinChannel ''review'' (initial 200 15000))" "''e1''" 5]
  by (simp add: taggedEvent_def joinChannel_def setAdd_def handler_defs)

section \<open>Channel registry\<close>

lemma setAdd_idem: "setAdd x (setAdd x xs) = setAdd x xs"
  by (simp add: setAdd_def)

lemma set_setAdd: "set (setAdd x xs) = insert x (set xs)"
  by (auto simp: setAdd_def)

text \<open>
  C7. \<open>join_channel\<close> adds the label to the known channels (a second join changes
  nothing) and makes it active, so that \<open>list_channels\<close> reports it as known and as
  active; \<open>leave_channel\<close> on the active label resets the active channel to the default
  label; and \<open>leave_channel\<close> on the default label leaves the known channels as they
  were, with or without purge.
\<close>

theorem channel_registry:
  "fst (joinChannel label s) = label
   \<and> set (lc_channels (listChannels (snd (joinChannel label s)))) = insert label (set (channels s))
   \<and> lc_activeChannel (listChannels (snd (joinChannel label s))) = label
   \<and> snd (joinChannel label (snd (joinChannel label s))) = snd (joinChannel label s)
   \<and> activeChannel (snd (leaveChannel (activeChannel s) purge s)) = ''default''
   \<and> lv_activeChannel (fst (leaveChannel (activeChannel s) purge s)) = ''default''
   \<and> channels (snd (leaveChannel ''default'' purge s)) = channels s"
  by (simp add: joinChannel_def leaveChannel_def listChannels_def clearEvents_def Let_def
      set_setAdd setAdd_idem)

theorem channel_registry_witness:
  "channels (snd (joinChannel ''review'' (initial 200 15000))) = [''default'', ''review'']
   \<and> lc_activeChannel (listChannels (snd (joinChannel ''review'' (initial 200 15000)))) = ''review''
   \<and> activeChannel (snd (leaveChannel ''review'' False (snd (joinChannel ''review'' (initial 200 15000)))))
       = ''default''
   \<and> channels (snd (leaveChannel ''default'' True (snd (joinChannel ''review'' (initial 200 15000)))))
       = [''default'', ''review'']"
  using channel_registry [of "''review''" "initial 200 15000" True]
    channel_registry [of "''review''" "snd (joinChannel ''review'' (initial 200 15000))" False]
  by (simp add: joinChannel_def leaveChannel_def listChannels_def clearEvents_def setAdd_def
      initial_def Let_def)

section \<open>Snapshot diff\<close>

lemma distinct_fold_update:
  "distinct (map fst m) \<Longrightarrow>
   distinct (map fst (fold (\<lambda>node m.
       if truthy node
       then (case jprop node ''id'' of Some (JStr i) \<Rightarrow> AList.update i node m | _ \<Rightarrow> m)
       else m) nodes m))"
  by (induction nodes arbitrary: m) (auto simp: distinct_update split: option.splits json.splits)

lemma distinct_nodeMap: "distinct (map fst (nodeMap nodes))"
  unfolding nodeMap_def by (rule distinct_fold_update) simp

lemma fold_skip: "(\<And>x acc. f x acc = acc) \<Longrightarrow> fold f xs acc = acc"
  by (induction xs) simp_all

lemma changedFields_same: "changedFields stringify ignoreFields node node = []"
  unfolding changedFields_def by (rule fold_skip) (simp add: Let_def)

lemma diffSnapshots_same:
  assumes "jprop params ''before'' = jprop params ''after''"
  shows "diffSnapshots stringify params =
           \<lparr> addedCount = 0, removedCount = 0, changedCount = 0,
             added = [], removed = [], changed = [] \<rparr>"
proof -
  let ?m = "nodeMap (normalizeSnapshotInput (jprop params ''after''))"
  have same: "\<And>i node. (i, node) \<in> set ?m \<Longrightarrow> map_of ?m i = Some node"
    using distinct_nodeMap by simp
  show ?thesis
    unfolding diffSnapshots_def assms
    by (auto simp: Let_def filter_empty_conv same changedFields_same)
qed

text \<open>
  C8. Whatever the snapshot \<open>S\<close> is (an array of nodes, a wrapper object with
  \<^verbatim>\<open>nodes\<close>, or anything else), \<open>diff_snapshots\<close> with \<open>S\<close> as \<^verbatim>\<open>before\<close> and as
  \<^verbatim>\<open>after\<close> and an empty \<^verbatim>\<open>ignoreFields\<close> yields three zero counts and three empty
  sequences, for every serializer.
\<close>

theorem diffSnapshots_same_snapshot:
  assumes "jprop params ''before'' = Some S" and "jprop params ''after'' = Some S"
    and "jprop params ''ignoreFields'' = Some (JArr [])"
  shows "diffSnapshots stringify params =
           \<lparr> addedCount = 0, removedCount = 0, changedCount = 0,
             added = [], removed = [], changed = [] \<rparr>"
  using assms by (simp add: diffSnapshots_same)

text \<open>The diff of two different snapshots, for comparison.\<close>

lemma diff_example:
  "diffSnapshots sampleStringify (JObj [(''before'', sampleSnapshot), (''after'', movedSnapshot)])
   = \<lparr> addedCount = 1, removedCount = 1, changedCount = 1,
       added = [JObj [(''id'', JStr ''1:4'')]],
       removed = [JObj [(''id'', JStr ''1:3''), (''name'', JStr ''Frame'')]],
       changed = [(''1:2'', [(''x'', Some (JNum 10), Some (JNum 20))])] \<rparr>"
  by (simp add: diffSnapshots_def normalizeSnapshotInput_def nodeMap_def changedFields_def
      newSet_def setAdd_def sampleSnapshot_def movedSnapshot_def digit_def isArrayIndex_def
      Let_def)

theorem diffSnapshots_same_snapshot_witness:
  "jprop (JObj [(''before'', sampleSnapshot), (''after'', sampleSnapshot), (''ignoreFields'', JArr [])])
     ''before'' = Some sampleSnapshot
   \<and> jprop (JObj [(''before'', sampleSnapshot), (''after'', sampleSnapshot), (''ignoreFields'', JArr [])])
     ''after'' = Some sampleSnapshot
   \<and> jprop (JObj [(''before'', sampleSnapshot), (''after'', sampleSnapshot), (''ignoreFields'', JArr [])])
     ''ignoreFields'' = Some (JArr [])
   \<and> diffSnapshots sampleStringify
        (JObj [(''before'', sampleSnapshot), (''after'', sampleSnapshot), (''ignoreFields'', JArr [])])
      = \<lparr> addedCount = 0, removedCount = 0, changedCount = 0,
          added = [], removed = [], changed = [] \<rparr>"
  using diffSnapshots_same_snapshot
    [of "JObj [(''before'', sampleSnapshot), (''after'', sampleSnapshot), (''ignoreFields'', JArr [])]"
        sampleSnapshot sampleStringify]
  by simp

section \<open>Batch execution\<close>















end
